theory Spec2Isabelle
  imports Complex_Main
begin

section \<open>Randomization utilities\<close>

text \<open>
  A thrown \<^verbatim>\<open>new Error(msg)\<close> is the value \<open>Error msg\<close>. Reading an array past its end
  yields JavaScript's \<^verbatim>\<open>undefined\<close>, which is no cell: \<open>Undefined\<close>.
\<close>

datatype failure = Error string | Undefined

text \<open>
  \<^verbatim>\<open>randomMember\<close> accepts a \<^verbatim>\<open>Set\<close> or an array. A \<^verbatim>\<open>Set\<close> is the list of its members in
  insertion order, which is the order \<^verbatim>\<open>Array.from\<close> reads them in.
\<close>

datatype 'a group = SetGroup "'a list" | ArrayGroup "'a list"

fun group_items :: "'a group \<Rightarrow> 'a list" where
  "group_items (SetGroup s) = s"
| "group_items (ArrayGroup a) = a"

text \<open>
  The second argument is the value \<^verbatim>\<open>Math.random()\<close> returns in the call, a number \<open>r\<close>
  with \<open>0 \<le> r < 1\<close>.
\<close>

definition randomMember :: "'a group \<Rightarrow> real \<Rightarrow> failure + 'a" where
  "randomMember grp r =
     (if length (group_items grp) = 0 then Inl (Error ''empty group'')
      else
        let items = group_items grp;
            randomIndex = \<lfloor>r * real (length items)\<rfloor>
        in if 0 \<le> randomIndex \<and> randomIndex < int (length items)
           then Inr (items ! nat randomIndex)
           else Inl Undefined)"

text \<open>
  \<^verbatim>\<open>shuffle\<close> sorts with a comparator that answers at random, so the order it leaves is
  the engine's choice. The choice is a parameter: the rearrangement applied in this call.
\<close>

definition shuffle :: "('a list \<Rightarrow> 'a list) \<Rightarrow> 'a list \<Rightarrow> 'a list" where
  "shuffle rearrange arr = rearrange arr"

section \<open>Grid graph model\<close>

text \<open>
  A \<^verbatim>\<open>Cell\<close> object is referred to by its coordinates \<open>(x, y)\<close>: the maze holds exactly one
  cell object per coordinate pair, at \<^verbatim>\<open>cells[y][x]\<close>, so two references are the same object
  iff the coordinates agree. The lists \<open>edges\<close> and \<open>neighbors\<close> hold such references.
\<close>

type_synonym ref = "nat \<times> nat"

record Cell =
  cell_x :: nat
  cell_y :: nat
  edges :: "ref list"
  neighbors :: "ref list"

definition Cell_constructor :: "nat \<Rightarrow> nat \<Rightarrow> Cell" where
  "Cell_constructor x y = \<lparr> cell_x = x, cell_y = y, edges = [], neighbors = [] \<rparr>"

definition ref_of :: "Cell \<Rightarrow> ref" where
  "ref_of c = (cell_x c, cell_y c)"

record Maze =
  width :: nat
  height :: nat
  cells :: "Cell list list"
  start_cell :: "ref option"
  end_cell :: "ref option"

definition cell_at :: "Cell list list \<Rightarrow> ref \<Rightarrow> Cell" where
  "cell_at cs r = cs ! snd r ! fst r"

definition update_cell :: "ref \<Rightarrow> (Cell \<Rightarrow> Cell) \<Rightarrow> Cell list list \<Rightarrow> Cell list list" where
  "update_cell r f cs = cs[snd r := (cs ! snd r)[fst r := f (cs ! snd r ! fst r)] ]"

definition push_edge :: "ref \<Rightarrow> Cell \<Rightarrow> Cell" where
  "push_edge r c = c\<lparr> edges := edges c @ [r] \<rparr>"

definition push_neighbor :: "ref \<Rightarrow> Cell \<Rightarrow> Cell" where
  "push_neighbor r c = c\<lparr> neighbors := neighbors c @ [r] \<rparr>"

text \<open>\<^verbatim>\<open>this.edges.push(neighbor); neighbor.edges.push(this)\<close>, in this order.\<close>

definition carveEdge :: "ref \<Rightarrow> ref \<Rightarrow> Cell list list \<Rightarrow> Cell list list" where
  "carveEdge this neighbor cs =
     update_cell neighbor (push_edge this) (update_cell this (push_edge neighbor) cs)"

text \<open>
  \<^verbatim>\<open>find\<close> returns the first edge that is the neighbor, or nothing; the neighbor is kept when
  nothing is found.
\<close>

definition uncarvedEdges :: "Cell \<Rightarrow> ref list" where
  "uncarvedEdges c =
     filter (\<lambda>neighbor. find (\<lambda>cell. cell = neighbor) (edges c) = None) (neighbors c)"

text \<open>
  First pass of the constructor. The assignments \<^verbatim>\<open>this.cells[y] = []\<close> and
  \<^verbatim>\<open>this.cells[y][x] = new Cell(x, y)\<close> write at the index that equals the array's length,
  which appends.
\<close>

definition generate_row :: "nat \<Rightarrow> nat \<Rightarrow> Cell list" where
  "generate_row w y = fold (\<lambda>x row. row @ [Cell_constructor x y]) [0..<w] []"

definition generate_cells :: "nat \<Rightarrow> nat \<Rightarrow> Cell list list" where
  "generate_cells w h = fold (\<lambda>y cs. cs @ [generate_row w y]) [0..<h] []"

text \<open>Second pass: left, right, top, bottom, each pushed when in bounds.\<close>

definition wire_cell :: "nat \<Rightarrow> nat \<Rightarrow> nat \<Rightarrow> nat \<Rightarrow> Cell \<Rightarrow> Cell" where
  "wire_cell w h x y c =
     (let c1 = (if x > 0 then push_neighbor (x - 1, y) c else c);
          c2 = (if int x < int w - 1 then push_neighbor (x + 1, y) c1 else c1);
          c3 = (if y > 0 then push_neighbor (x, y - 1) c2 else c2);
          c4 = (if int y < int h - 1 then push_neighbor (x, y + 1) c3 else c3)
      in c4)"

definition wire_neighbors :: "nat \<Rightarrow> nat \<Rightarrow> Cell list list \<Rightarrow> Cell list list" where
  "wire_neighbors w h cs0 =
     fold (\<lambda>y cs. fold (\<lambda>x cs'. update_cell (x, y) (wire_cell w h x y) cs') [0..<w] cs)
       [0..<h] cs0"

definition Maze_constructor :: "nat \<Rightarrow> nat \<Rightarrow> Maze" where
  "Maze_constructor w h =
     \<lparr> width = w, height = h, cells = wire_neighbors w h (generate_cells w h),
       start_cell = None, end_cell = None \<rparr>"

text \<open>Coordinates are naturals, so the source's tests \<^verbatim>\<open>x < 0\<close> and \<^verbatim>\<open>y < 0\<close> never fire.\<close>

definition getCell :: "Maze \<Rightarrow> nat \<Rightarrow> nat \<Rightarrow> ref option" where
  "getCell m x y =
     (if x \<ge> width m \<or> y \<ge> height m then None
      else Some (ref_of (cells m ! y ! x)))"

text \<open>\<^verbatim>\<open>maze.cells.flat()\<close>: the cell objects row by row.\<close>

definition flat_cells :: "Maze \<Rightarrow> ref list" where
  "flat_cells m = map ref_of (concat (cells m))"

text \<open>The grid-adjacent positions of the specification.\<close>

definition grid_adjacent :: "ref \<Rightarrow> ref \<Rightarrow> bool" where
  "grid_adjacent a b =
     ((fst b + 1 = fst a \<and> snd b = snd a) \<or> (fst b = fst a + 1 \<and> snd b = snd a) \<or>
      (fst b = fst a \<and> snd b + 1 = snd a) \<or> (fst b = fst a \<and> snd b = snd a + 1))"

definition in_bounds :: "nat \<Rightarrow> nat \<Rightarrow> ref \<Rightarrow> bool" where
  "in_bounds w h r = (fst r < w \<and> snd r < h)"

section \<open>JavaScript sets and array helpers\<close>

text \<open>A \<^verbatim>\<open>Set\<close> keeps its members in insertion order; adding a member again changes nothing.\<close>

definition set_add :: "'a \<Rightarrow> 'a list \<Rightarrow> 'a list" where
  "set_add v s = (if v \<in> set s then s else s @ [v])"

definition set_delete :: "'a \<Rightarrow> 'a list \<Rightarrow> 'a list" where
  "set_delete v s = filter (\<lambda>u. u \<noteq> v) s"

definition new_Set :: "'a list \<Rightarrow> 'a list" where
  "new_Set arr = fold set_add arr []"

text \<open>\<^verbatim>\<open>indexOf\<close>: the first index holding the value, or \<open>-1\<close>.\<close>

fun indexOf :: "'a list \<Rightarrow> 'a \<Rightarrow> int" where
  "indexOf [] v = - 1"
| "indexOf (u # us) v =
     (if u = v then 0 else (let i = indexOf us v in if i = - 1 then - 1 else i + 1))"

text \<open>\<^verbatim>\<open>slice(0, e)\<close> for an end \<open>e \<ge> 0\<close>, the only way the source calls it.\<close>

definition slice0 :: "'a list \<Rightarrow> int \<Rightarrow> 'a list" where
  "slice0 xs e = take (nat e) xs"

definition carve :: "ref \<Rightarrow> ref \<Rightarrow> Maze \<Rightarrow> Maze" where
  "carve this neighbor m = m\<lparr> cells := carveEdge this neighbor (cells m) \<rparr>"

section \<open>Randomized depth-first carver\<close>

text \<open>
  The set \<open>dfs_visited\<close> holds the keys \<^verbatim>\<open>`${x},${y}`\<close> as pairs. \<open>dfs_shuffles\<close> counts the
  calls of \<^verbatim>\<open>shuffle\<close> so far; the \<open>n\<close>-th call rearranges by \<open>sh n\<close>.
\<close>

record dfs_state =
  dfs_maze :: Maze
  dfs_visited :: "ref list"
  dfs_shuffles :: nat

text \<open>
  \<^verbatim>\<open>visit\<close> has no \<^verbatim>\<open>await\<close>, so each call runs to its end before the caller goes on. The
  first argument bounds the depth of the recursion; \<open>None\<close> is a call stack that ran out.
\<close>

fun visit :: "nat \<Rightarrow> (nat \<Rightarrow> ref list \<Rightarrow> ref list) \<Rightarrow> dfs_state \<Rightarrow> ref \<Rightarrow> nat \<Rightarrow> nat
                \<Rightarrow> dfs_state option"
  and visit_neighbors :: "nat \<Rightarrow> (nat \<Rightarrow> ref list \<Rightarrow> ref list) \<Rightarrow> dfs_state \<Rightarrow> ref \<Rightarrow> ref list
                \<Rightarrow> dfs_state option"
where
  "visit 0 sh st last_cell x y = None"
| "visit (Suc depth) sh st last_cell x y =
     (if (x, y) \<in> set (dfs_visited st) then Some st
      else
        let st1 = st\<lparr> dfs_visited := set_add (x, y) (dfs_visited st) \<rparr> in
        case getCell (dfs_maze st1) x y of
          None \<Rightarrow> Some st1
        | Some current \<Rightarrow>
            let st2 = st1\<lparr> dfs_maze := carve current last_cell (dfs_maze st1) \<rparr>;
                nbs = shuffle (sh (dfs_shuffles st2))
                        (uncarvedEdges (cell_at (cells (dfs_maze st2)) current));
                st3 = st2\<lparr> dfs_shuffles := dfs_shuffles st2 + 1 \<rparr>
            in visit_neighbors depth sh st3 current nbs)"
| "visit_neighbors depth sh st current [] = Some st"
| "visit_neighbors depth sh st current (neighbor # rest) =
     (case visit depth sh st current
             (cell_x (cell_at (cells (dfs_maze st)) neighbor))
             (cell_y (cell_at (cells (dfs_maze st)) neighbor)) of
        None \<Rightarrow> None
      | Some st' \<Rightarrow> visit_neighbors depth sh st' current rest)"

definition solveMazeWithRandomDPS ::
  "nat \<Rightarrow> real \<Rightarrow> (nat \<Rightarrow> ref list \<Rightarrow> ref list) \<Rightarrow> Maze \<Rightarrow> (failure + Maze) option" where
  "solveMazeWithRandomDPS depth r sh m =
     (case randomMember (ArrayGroup (flat_cells m)) r of
        Inl e \<Rightarrow> Some (Inl e)
      | Inr rndCell \<Rightarrow>
          (case visit depth sh \<lparr> dfs_maze = m, dfs_visited = [], dfs_shuffles = 0 \<rparr> rndCell
                  (cell_x (cell_at (cells m) rndCell)) (cell_y (cell_at (cells m) rndCell)) of
             None \<Rightarrow> None
           | Some st \<Rightarrow> Some (Inr (dfs_maze st))))"

section \<open>Cancellable delay\<close>

text \<open>
  Time is a clock in milliseconds. The signal's controller aborts at \<open>abort_time\<close>, if ever,
  and the \<^verbatim>\<open>abort\<close> event is dispatched once, at that moment, to the listeners registered by
  then. \<^verbatim>\<open>timeoutWithCancel\<close> called at clock \<open>called\<close> starts a timer that resolves the
  promise at \<open>called + time\<close> and registers a listener that rejects it. The result is the
  clock at which the promise settles and the rejection, if any. Synchronous code takes no
  time on this clock, so a listener registered at the moment the signal fires still hears
  it, and a timer that expires at that moment has resolved the promise first.
\<close>

record AbortSignal =
  abort_time :: "nat option"

definition signal_aborted :: "AbortSignal \<Rightarrow> nat \<Rightarrow> bool" where
  "signal_aborted signal t = (case abort_time signal of None \<Rightarrow> False | Some a \<Rightarrow> a < t)"

definition timeoutWithCancel :: "nat \<Rightarrow> AbortSignal \<Rightarrow> nat \<Rightarrow> nat \<times> failure option" where
  "timeoutWithCancel time signal called =
     (case abort_time signal of
        None \<Rightarrow> (called + time, None)
      | Some a \<Rightarrow>
          if called \<le> a \<and> a < called + time then (a, Some (Error ''aborted''))
          else (called + time, None))"

section \<open>Wilson's algorithm\<close>

text \<open>
  What the run does to the canvas and the timers is kept as a list of events: a call of
  \<^verbatim>\<open>renderMaze\<close> with the maze as it is at the call, the current cell and the path; a call of
  \<^verbatim>\<open>fillSelf\<close> on a cell; a call of \<^verbatim>\<open>timeoutWithCancel\<close> with the clock of the call and the
  duration.
\<close>

datatype event =
  RenderMaze Maze "ref option" "ref list"
| FillSelf ref
| TimeoutWithCancel nat nat

record wilson_state =
  the_maze :: Maze
  visited :: "ref list"
  unvisited :: "ref list"
  stepsTaken :: nat
  clock :: nat
  events :: "event list"

text \<open>
  A run either returns the step count, or throws, or has used up the random numbers it was
  given before it came to an end.
\<close>

datatype outcome = Returned nat | Threw failure | DrawsExhausted

definition renderMaze :: "ref option \<Rightarrow> ref list \<Rightarrow> wilson_state \<Rightarrow> wilson_state" where
  "renderMaze currentCell currentPath st =
     st\<lparr> events := events st @ [RenderMaze (the_maze st) currentCell currentPath] \<rparr>"

definition fillSelf :: "ref \<Rightarrow> wilson_state \<Rightarrow> wilson_state" where
  "fillSelf c st = st\<lparr> events := events st @ [FillSelf c] \<rparr>"

text \<open>\<^verbatim>\<open>await timeoutWithCancel(time, cancelSignal)\<close>: a rejection is thrown on.\<close>

definition await_timeout ::
  "nat \<Rightarrow> AbortSignal \<Rightarrow> wilson_state \<Rightarrow> (failure \<times> wilson_state) + wilson_state" where
  "await_timeout time signal st =
     (let st1 = st\<lparr> events := events st @ [TimeoutWithCancel (clock st) time] \<rparr> in
      case timeoutWithCancel time signal (clock st) of
        (t, Some e) \<Rightarrow> Inl (e, st1\<lparr> clock := t \<rparr>)
      | (t, None) \<Rightarrow> Inr (st1\<lparr> clock := t \<rparr>))"

text \<open>The loop erasure of one walk step, on the path that already ends in \<open>current\<close>.\<close>

definition erase_loop :: "ref list \<Rightarrow> ref \<Rightarrow> ref list" where
  "erase_loop path nxt =
     (let loopIdx = indexOf path nxt in
      if loopIdx \<noteq> - 1 then slice0 path (loopIdx + 1) else path @ [nxt])"

text \<open>One pass through the body of the inner \<^verbatim>\<open>while\<close> loop.\<close>

definition walk_step ::
  "AbortSignal \<Rightarrow> nat \<Rightarrow> ref \<Rightarrow> real \<Rightarrow> wilson_state \<Rightarrow> ref list \<Rightarrow> ref
     \<Rightarrow> (failure \<times> wilson_state) + (wilson_state \<times> ref list \<times> ref)" where
  "walk_step cancelSignal stepTime startCell r st path current =
     (let st1 = st\<lparr> stepsTaken := stepsTaken st + 1 \<rparr>;
          path1 = path @ [current]
      in case randomMember (ArrayGroup (uncarvedEdges (cell_at (cells (the_maze st1)) current))) r of
           Inl e \<Rightarrow> Inl (e, st1)
         | Inr nxt \<Rightarrow>
             let path2 = erase_loop path1 nxt in
             if length (visited st1) > 1 then
               (let st2 = renderMaze (Some nxt) path2 st1;
                    st3 = (if length (visited st2) = 1 then fillSelf startCell st2 else st2)
                in case await_timeout stepTime cancelSignal st3 of
                     Inl (e, st4) \<Rightarrow> Inl (e, st4)
                   | Inr st4 \<Rightarrow> Inr (st4, path2, nxt))
             else Inr (st1, path2, nxt))"

text \<open>The \<^verbatim>\<open>for\<close> loop that carves the finished walk into the maze.\<close>

definition carve_path :: "ref list \<Rightarrow> wilson_state \<Rightarrow> wilson_state" where
  "carve_path path st0 =
     fold (\<lambda>i st.
            let cell = path ! i; nextCell = path ! (i + 1) in
            st\<lparr> the_maze := carve cell nextCell (the_maze st),
                visited := set_add cell (visited st),
                unvisited := set_delete cell (unvisited st) \<rparr>)
       [0..<length path - 1] st0"

text \<open>After the outer loop: the settled frame, the terminal pause, the step count.\<close>

definition finish :: "AbortSignal \<Rightarrow> wilson_state \<Rightarrow> wilson_state \<times> outcome" where
  "finish cancelSignal st =
     (case await_timeout 5000 cancelSignal (renderMaze None [] st) of
        Inl (e, st') \<Rightarrow> (st', Threw e)
      | Inr st' \<Rightarrow> (st', Returned (stepsTaken st')))"

text \<open>
  The outer \<^verbatim>\<open>while\<close> loop and the random walk inside it. The last argument lists the values
  \<^verbatim>\<open>Math.random()\<close> returns from here on; each call of \<^verbatim>\<open>randomMember\<close> takes the next one.
\<close>

fun wilson_loop ::
    "AbortSignal \<Rightarrow> nat \<Rightarrow> ref \<Rightarrow> wilson_state \<Rightarrow> real list \<Rightarrow> wilson_state \<times> outcome"
  and random_walk ::
    "AbortSignal \<Rightarrow> nat \<Rightarrow> ref \<Rightarrow> wilson_state \<Rightarrow> ref list \<Rightarrow> ref \<Rightarrow> real list
       \<Rightarrow> wilson_state \<times> outcome"
where
  "wilson_loop cancelSignal stepTime startCell st rs =
     (if length (unvisited st) > 0 then
        (case rs of
           [] \<Rightarrow> (st, DrawsExhausted)
         | r # rs' \<Rightarrow>
             (case randomMember (SetGroup (unvisited st)) r of
                Inl e \<Rightarrow> (st, Threw e)
              | Inr current \<Rightarrow> random_walk cancelSignal stepTime startCell st [] current rs'))
      else finish cancelSignal st)"
| "random_walk cancelSignal stepTime startCell st path current rs =
     (if current \<notin> set (visited st) then
        (case rs of
           [] \<Rightarrow> (st, DrawsExhausted)
         | r # rs' \<Rightarrow>
             (case walk_step cancelSignal stepTime startCell r st path current of
                Inl (e, st') \<Rightarrow> (st', Threw e)
              | Inr (st', path', nxt) \<Rightarrow>
                  random_walk cancelSignal stepTime startCell st' path' nxt rs'))
      else wilson_loop cancelSignal stepTime startCell (carve_path path st) rs)"

text \<open>The run starts at clock \<open>t0\<close>.\<close>

definition wilsonsAlgorithm ::
  "Maze \<Rightarrow> AbortSignal \<Rightarrow> nat \<Rightarrow> nat \<Rightarrow> real list \<Rightarrow> wilson_state \<times> outcome" where
  "wilsonsAlgorithm m cancelSignal stepTime t0 rs =
     (let st0 = \<lparr> the_maze = m, visited = [], unvisited = new_Set (flat_cells m),
                  stepsTaken = 0, clock = t0, events = [] \<rparr>
      in case rs of
           [] \<Rightarrow> (st0, DrawsExhausted)
         | r # rs' \<Rightarrow>
             (case randomMember (ArrayGroup (flat_cells m)) r of
                Inl e \<Rightarrow> (st0, Threw e)
              | Inr startCell \<Rightarrow>
                  wilson_loop cancelSignal stepTime startCell
                    (st0\<lparr> visited := set_add startCell (visited st0),
                          unvisited := set_delete startCell (unvisited st0) \<rparr>) rs'))"

section \<open>Measures on the carved graph\<close>

text \<open>Each carve pushes two entries, one per endpoint, so an undirected edge is two entries.\<close>

definition edge_entries :: "Maze \<Rightarrow> nat" where
  "edge_entries m = sum_list (map (\<lambda>c. length (edges c)) (concat (cells m)))"

definition carved_edge_count :: "Maze \<Rightarrow> nat" where
  "carved_edge_count m = edge_entries m div 2"

text \<open>The cells reached from a cell along carved edges, by a bounded number of rounds.\<close>

fun reach :: "nat \<Rightarrow> Cell list list \<Rightarrow> ref list \<Rightarrow> ref list" where
  "reach 0 cs seen = seen"
| "reach (Suc n) cs seen =
     reach n cs (fold set_add (concat (map (\<lambda>r. edges (cell_at cs r)) seen)) seen)"

definition connected_maze :: "Maze \<Rightarrow> bool" where
  "connected_maze m =
     list_all (\<lambda>a. set (reach (length (flat_cells m)) (cells m) [a]) = set (flat_cells m))
       (flat_cells m)"

text \<open>The invariant of the data model: every cell's edges are among its neighbors.\<close>

definition edges_within_neighbors :: "Maze \<Rightarrow> bool" where
  "edges_within_neighbors m =
     list_all (\<lambda>c. list_all (\<lambda>e. e \<in> set (neighbors c)) (edges c)) (concat (cells m))"

text \<open>The state a walk step leaves, whether the step throws or goes on.\<close>

fun step_state :: "(failure \<times> wilson_state) + (wilson_state \<times> ref list \<times> ref) \<Rightarrow> wilson_state" where
  "step_state (Inl (e, st)) = st"
| "step_state (Inr (st, path, nxt)) = st"

text \<open>Whether a delay called at clock \<open>c\<close> for \<open>d\<close> milliseconds is pending when the signal fires.\<close>

definition fires_during :: "AbortSignal \<Rightarrow> nat \<Rightarrow> nat \<Rightarrow> bool" where
  "fires_during signal c d =
     (case abort_time signal of None \<Rightarrow> False | Some a \<Rightarrow> c \<le> a \<and> a < c + d)"

text \<open>Every delay in a list of events ran its full time: the signal did not fire during it.\<close>

definition delays_resolved :: "AbortSignal \<Rightarrow> event list \<Rightarrow> bool" where
  "delays_resolved signal evs =
     list_all (\<lambda>ev. case ev of TimeoutWithCancel c d \<Rightarrow> \<not> fires_during signal c d | _ \<Rightarrow> True) evs"

text \<open>
  What a run has come to with respect to the signal: either it threw the error "aborted",
  and then the last two things it did were to render the maze it leaves and to start the
  delay during which the signal fired; or it did not, and every delay it started ran its
  full time.
\<close>

definition run_post :: "AbortSignal \<Rightarrow> wilson_state \<times> outcome \<Rightarrow> bool" where
  "run_post signal res =
     (if snd res = Threw (Error ''aborted'')
      then (\<exists>pre cur p c d.
              events (fst res) = pre @ [RenderMaze (the_maze (fst res)) cur p, TimeoutWithCancel c d] \<and>
              fires_during signal c d \<and> delays_resolved signal pre \<and>
              abort_time signal = Some (clock (fst res)))
      else delays_resolved signal (events (fst res)))"

text \<open>The coordinate pairs of the grid in the order the constructor's second pass walks them.\<close>

definition grid_refs :: "nat \<Rightarrow> nat \<Rightarrow> ref list" where
  "grid_refs w h = concat (map (\<lambda>y. map (\<lambda>x. (x, y)) [0..<w]) [0..<h])"

section \<open>Random member selection\<close>

text \<open>
  C7. \<^verbatim>\<open>randomMember\<close> on an empty set or an empty array throws the error "empty group",
  whatever \<^verbatim>\<open>Math.random()\<close> returns; on a set or an array of one element it returns that
  element, for every value \<open>0 \<le> r < 1\<close> of \<^verbatim>\<open>Math.random()\<close>.
\<close>

theorem randomMember_empty_singleton:
  "randomMember (SetGroup []) r = Inl (Error ''empty group'') \<and>
   randomMember (ArrayGroup []) r = Inl (Error ''empty group'') \<and>
   (0 \<le> r \<and> r < 1 \<longrightarrow>
      randomMember (SetGroup [a]) r = Inr a \<and> randomMember (ArrayGroup [a]) r = Inr a)"
proof -
  have "\<lfloor>r\<rfloor> = 0" if "0 \<le> r" "r < 1"
    using that by (simp add: floor_eq_iff)
  then show ?thesis
    by (simp add: randomMember_def)
qed

theorem randomMember_empty_singleton_witness:
  "randomMember (SetGroup ([] :: nat list)) (1 / 2) = Inl (Error ''empty group'') \<and>
   randomMember (ArrayGroup ([] :: nat list)) (1 / 2) = Inl (Error ''empty group'') \<and>
   (0::real) \<le> 1 / 2 \<and> (1 / 2 :: real) < 1 \<and>
   randomMember (SetGroup [7 :: nat]) (1 / 2) = Inr 7 \<and>
   randomMember (ArrayGroup [7 :: nat]) (1 / 2) = Inr 7"
  using randomMember_empty_singleton [of "1 / 2" "7 :: nat"] by simp

section \<open>Maze construction\<close>

lemma fold_snoc_map: "fold (\<lambda>v acc. acc @ [f v]) vs acc0 = acc0 @ map f vs"
  by (induction vs arbitrary: acc0) simp_all

lemma generate_row_map: "generate_row w y = map (\<lambda>x. Cell_constructor x y) [0..<w]"
  by (simp add: generate_row_def fold_snoc_map)

lemma generate_cells_map:
  "generate_cells w h = map (\<lambda>y. map (\<lambda>x. Cell_constructor x y) [0..<w]) [0..<h]"
  by (simp add: generate_cells_def fold_snoc_map generate_row_map)

lemma length_update_cell [simp]: "length (update_cell r f cs) = length cs"
  by (simp add: update_cell_def)

lemma length_update_cell_row [simp]: "length (update_cell r f cs ! i) = length (cs ! i)"
proof (cases "snd r < length cs")
  case True
  then show ?thesis by (simp add: update_cell_def nth_list_update)
next
  case False
  then show ?thesis by (simp add: update_cell_def list_update_beyond)
qed

lemma cell_at_update_cell:
  assumes "snd p < length cs" and "fst p < length (cs ! snd p)"
  shows "cell_at (update_cell r f cs) p = (if p = r then f (cell_at cs p) else cell_at cs p)"
proof (cases "snd r = snd p")
  case True
  with assms show ?thesis
    by (cases p; cases r) (auto simp: cell_at_def update_cell_def nth_list_update)
next
  case False
  with assms show ?thesis
    by (cases p; cases r) (auto simp: cell_at_def update_cell_def nth_list_update)
qed

lemma length_fold_update_cell [simp]:
  "length (fold (\<lambda>r. update_cell r (g r)) rs cs) = length cs"
  by (induction rs arbitrary: cs) simp_all

lemma length_fold_update_cell_row [simp]:
  "length (fold (\<lambda>r. update_cell r (g r)) rs cs ! i) = length (cs ! i)"
  by (induction rs arbitrary: cs) simp_all

lemma cell_at_fold_update_cell:
  assumes "distinct rs" and "snd p < length cs" and "fst p < length (cs ! snd p)"
  shows "cell_at (fold (\<lambda>r. update_cell r (g r)) rs cs) p =
           (if p \<in> set rs then g p (cell_at cs p) else cell_at cs p)"
  using assms
proof (induction rs arbitrary: cs)
  case Nil
  then show ?case by simp
next
  case (Cons r rs)
  have "cell_at (fold (\<lambda>r. update_cell r (g r)) rs (update_cell r (g r) cs)) p =
          (if p \<in> set rs then g p (cell_at (update_cell r (g r) cs) p)
           else cell_at (update_cell r (g r) cs) p)"
    using Cons.prems by (intro Cons.IH) simp_all
  with Cons.prems show ?case
    by (auto simp: cell_at_update_cell)
qed

lemma fold_concat_fold: "fold f (concat xss) = fold (fold f) xss"
  by (induction xss) simp_all

lemma wire_neighbors_fold:
  "wire_neighbors w h cs = fold (\<lambda>r. update_cell r (wire_cell w h (fst r) (snd r))) (grid_refs w h) cs"
  by (simp add: wire_neighbors_def grid_refs_def fold_concat_fold fold_map comp_def)

lemma grid_refs_product: "grid_refs w h = map prod.swap (List.product [0..<h] [0..<w])"
  by (simp add: grid_refs_def product_concat_map map_concat comp_def)

lemma distinct_grid_refs: "distinct (grid_refs w h)"
  unfolding grid_refs_product
  by (simp add: distinct_map distinct_product inj_on_def)

lemma set_grid_refs: "set (grid_refs w h) = {r. in_bounds w h r}"
  by (auto simp: grid_refs_def in_bounds_def)


lemma cell_at_generate_cells:
  "x < w \<Longrightarrow> y < h \<Longrightarrow> cell_at (generate_cells w h) (x, y) = Cell_constructor x y"
  by (simp add: generate_cells_map cell_at_def)

lemma cell_at_Maze_constructor:
  assumes "x < w" and "y < h"
  shows "cell_at (cells (Maze_constructor w h)) (x, y) = wire_cell w h x y (Cell_constructor x y)"
proof -
  have "cell_at (wire_neighbors w h (generate_cells w h)) (x, y) =
          (if (x, y) \<in> set (grid_refs w h)
           then wire_cell w h (fst (x, y)) (snd (x, y)) (cell_at (generate_cells w h) (x, y))
           else cell_at (generate_cells w h) (x, y))"
    unfolding wire_neighbors_fold using assms
    by (intro cell_at_fold_update_cell distinct_grid_refs) (simp_all add: generate_cells_map)
  with assms show ?thesis
    by (simp add: Maze_constructor_def set_grid_refs in_bounds_def cell_at_generate_cells)
qed

lemma wire_cell_fields:
  "cell_x (wire_cell w h x y c) = cell_x c" "cell_y (wire_cell w h x y c) = cell_y c"
  "edges (wire_cell w h x y c) = edges c"
  by (simp_all add: wire_cell_def push_neighbor_def Let_def)

lemma Cell_constructor_fields:
  "cell_x (Cell_constructor x y) = x" "cell_y (Cell_constructor x y) = y"
  "edges (Cell_constructor x y) = []"
  by (simp_all add: Cell_constructor_def)

lemma wire_cell_neighbors:
  "neighbors (wire_cell w h x y (Cell_constructor x y)) =
     (if x > 0 then [(x - 1, y)] else []) @ (if x + 1 < w then [(x + 1, y)] else []) @
     (if y > 0 then [(x, y - 1)] else []) @ (if y + 1 < h then [(x, y + 1)] else [])"
  by (auto simp: wire_cell_def push_neighbor_def Cell_constructor_def Let_def)

lemma wire_cell_neighbors_set:
  assumes "x < w" and "y < h"
  shows "set (neighbors (wire_cell w h x y (Cell_constructor x y))) =
           {r. in_bounds w h r \<and> grid_adjacent (x, y) r}"
  using assms unfolding wire_cell_neighbors
  by (auto simp: in_bounds_def grid_adjacent_def)

lemma wire_cell_neighbors_distinct:
  "distinct (neighbors (wire_cell w h x y (Cell_constructor x y)))"
  unfolding wire_cell_neighbors by auto

lemma length_cells_Maze_constructor: "length (cells (Maze_constructor w h)) = h"
  by (simp add: Maze_constructor_def wire_neighbors_fold generate_cells_map)

lemma length_row_Maze_constructor:
  "y < h \<Longrightarrow> length (cells (Maze_constructor w h) ! y) = w"
  by (simp add: Maze_constructor_def wire_neighbors_fold generate_cells_map)

lemma length_concat_rows:
  "\<forall>row \<in> set css. length row = w \<Longrightarrow> length (concat css) = length css * w"
  by (induction css) simp_all

text \<open>
  C9. For \<open>width > 0\<close> and \<open>height > 0\<close> the constructed maze has \<open>height\<close> rows of \<open>width\<close>
  cells, \<open>width * height\<close> cells in all; the cell at \<^verbatim>\<open>cells[y][x]\<close> has the coordinates
  \<open>(x, y)\<close>, its neighbors are, without repetition, exactly the grid-adjacent positions
  \<open>(x-1, y)\<close>, \<open>(x+1, y)\<close>, \<open>(x, y-1)\<close>, \<open>(x, y+1)\<close> that lie in bounds, and its edges are empty.
\<close>

theorem Maze_constructor_grid:
  assumes "0 < w" and "0 < h"
  shows "length (cells (Maze_constructor w h)) = h \<and>
         (\<forall>y < h. length (cells (Maze_constructor w h) ! y) = w) \<and>
         length (concat (cells (Maze_constructor w h))) = w * h \<and>
         (\<forall>x < w. \<forall>y < h.
            cell_x (cells (Maze_constructor w h) ! y ! x) = x \<and>
            cell_y (cells (Maze_constructor w h) ! y ! x) = y \<and>
            distinct (neighbors (cells (Maze_constructor w h) ! y ! x)) \<and>
            set (neighbors (cells (Maze_constructor w h) ! y ! x)) =
              {r. in_bounds w h r \<and> grid_adjacent (x, y) r} \<and>
            edges (cells (Maze_constructor w h) ! y ! x) = [])"
proof -
  let ?cs = "cells (Maze_constructor w h)"
  have rows: "\<forall>row \<in> set ?cs. length row = w"
    by (auto simp: in_set_conv_nth length_cells_Maze_constructor length_row_Maze_constructor)
  have total: "length (concat ?cs) = w * h"
    using length_concat_rows [OF rows] by (simp add: length_cells_Maze_constructor)
  have cell: "?cs ! y ! x = wire_cell w h x y (Cell_constructor x y)" if "x < w" "y < h" for x y
    using cell_at_Maze_constructor [OF that] by (simp add: cell_at_def)
  show ?thesis
    using total
    by (simp add: length_cells_Maze_constructor length_row_Maze_constructor cell
        wire_cell_fields wire_cell_neighbors_set wire_cell_neighbors_distinct
        Cell_constructor_fields)
qed

theorem Maze_constructor_grid_witness:
  "(0::nat) < 3 \<and> (0::nat) < 2 \<and>
   length (concat (cells (Maze_constructor 3 2))) = 6 \<and>
   set (neighbors (cells (Maze_constructor 3 2) ! 1 ! 1)) = {(0, 1), (2, 1), (1, 0)} \<and>
   edges (cells (Maze_constructor 3 2) ! 1 ! 1) = []"
proof -
  have "{r. in_bounds 3 2 r \<and> grid_adjacent (1, 1) r} = {(0, 1), (2, 1), (1, 0)}"
    by (auto simp: in_bounds_def grid_adjacent_def)
  then show ?thesis
    using Maze_constructor_grid [of 3 2] by simp
qed

section \<open>The carvers on small mazes\<close>

text \<open>
  The draws below are the values of \<^verbatim>\<open>Math.random()\<close> in the order the run asks for them;
  the rearrangement of every \<^verbatim>\<open>shuffle\<close> is the identity.
\<close>

text \<open>
  C1. Wilson's algorithm on the maze of width 3 and height 1, with the seed \<open>(2, 0)\<close> and a
  first walk \<open>(0, 0)\<close>, \<open>(1, 0)\<close>, \<open>(2, 0)\<close>: the run returns after 2 steps. Each step
  pushes its cell onto the path and the step before has pushed it too, so the path is
  \<open>(0, 0)\<close>, \<open>(1, 0)\<close>, \<open>(1, 0)\<close>, \<open>(2, 0)\<close> and the cell \<open>(1, 0)\<close> is carved to itself: it has 4
  edge entries and 2 neighbors, and the maze has 3 carved edges, not \<open>3 * 1 - 1 = 2\<close>. The
  carved graph is connected.
\<close>

theorem wilson_carves_self_edge:
  "(case wilsonsAlgorithm (Maze_constructor 3 1) \<lparr> abort_time = None \<rparr> 10 0 [9 / 10, 0, 0, 1 / 2] of
      (st, out) \<Rightarrow>
        out = Returned 2 \<and>
        cells (the_maze st) =
          [ [\<lparr> cell_x = 0, cell_y = 0, edges = [(1, 0)], neighbors = [(1, 0)] \<rparr>,
            \<lparr> cell_x = 1, cell_y = 0, edges = [(0, 0), (1, 0), (1, 0), (2, 0)],
               neighbors = [(0, 0), (2, 0)] \<rparr>,
            \<lparr> cell_x = 2, cell_y = 0, edges = [(1, 0)], neighbors = [(1, 0)] \<rparr>] ] \<and>
        carved_edge_count (the_maze st) = 3 \<and>
        width (the_maze st) * height (the_maze st) - 1 = 2 \<and>
        connected_maze (the_maze st))"
  by code_simp

text \<open>
  C2. Wilson's algorithm on the maze of width 5 and height 1 with the seed \<open>(4, 0)\<close>: the
  first walk starts at \<open>(0, 0)\<close> and steps to \<open>(1, 0)\<close>, \<open>(2, 0)\<close>, \<open>(3, 0)\<close> and back to
  \<open>(2, 0)\<close>. In the fourth step the chosen cell \<open>(2, 0)\<close> is in the path, and the path the
  loop erasure leaves is \<open>(0, 0)\<close>, \<open>(1, 0)\<close>, \<open>(1, 0)\<close>, \<open>(2, 0)\<close>: it ends at the chosen cell
  and holds \<open>(1, 0)\<close> twice.
\<close>

theorem loop_erasure_keeps_duplicates:
  "(let signal = \<lparr> abort_time = None \<rparr>;
        s0 = fst (wilsonsAlgorithm (Maze_constructor 5 1) signal 10 0 [9 / 10])
    in visited s0 = [(4, 0)] \<and>
       randomMember (SetGroup (unvisited s0)) 0 = Inr (0, 0) \<and>
     (case walk_step signal 10 (4, 0) 0 s0 [] (0, 0) of
         Inl f \<Rightarrow> False
       | Inr (s1, p1, c1) \<Rightarrow>
     (case walk_step signal 10 (4, 0) (1 / 2) s1 p1 c1 of
         Inl f \<Rightarrow> False
       | Inr (s2, p2, c2) \<Rightarrow>
     (case walk_step signal 10 (4, 0) (1 / 2) s2 p2 c2 of
         Inl f \<Rightarrow> False
       | Inr (s3, p3, c3) \<Rightarrow>
     (case walk_step signal 10 (4, 0) 0 s3 p3 c3 of
         Inl f \<Rightarrow> False
       | Inr (s4, p4, c4) \<Rightarrow>
           p3 = [(0, 0), (1, 0), (1, 0), (2, 0), (2, 0), (3, 0)] \<and> c3 = (3, 0) \<and>
           c4 = (2, 0) \<and> c4 \<in> set (p3 @ [c3]) \<and>
           p4 = [(0, 0), (1, 0), (1, 0), (2, 0)] \<and> \<not> distinct p4 \<and> last p4 = c4)))))"
  by code_simp

text \<open>
  C3. The depth-first carver on the maze of one cell: the root call
  \<^verbatim>\<open>visit(rndCell, rndCell.x, rndCell.y)\<close> carves the start cell to its predecessor, which is
  the start cell itself. The cell ends with the edges \<open>(0, 0)\<close>, \<open>(0, 0)\<close> and no neighbors, so
  its edges are not among its neighbors.
\<close>

theorem dfs_root_carves_itself:
  "solveMazeWithRandomDPS 2 0 (\<lambda>n arr. arr) (Maze_constructor 1 1) =
     Some (Inr ((Maze_constructor 1 1)\<lparr> cells :=
       [ [\<lparr> cell_x = 0, cell_y = 0, edges = [(0, 0), (0, 0)], neighbors = [] \<rparr>] ] \<rparr>)) \<and>
   \<not> edges_within_neighbors ((Maze_constructor 1 1)\<lparr> cells :=
       [ [\<lparr> cell_x = 0, cell_y = 0, edges = [(0, 0), (0, 0)], neighbors = [] \<rparr>] ] \<rparr>)"
  by code_simp

text \<open>
  C4. The depth-first carver on the maze of width 3 and height 3, started at \<open>(0, 0)\<close>: every
  cell reaches every cell along carved edges, and the maze holds 9 carved edges: the 8
  between different cells and the one from the start cell to itself, which is the only cell
  that has itself among its edges.
\<close>

theorem dfs_3x3_nine_edges:
  "(case solveMazeWithRandomDPS 10 0 (\<lambda>n arr. arr) (Maze_constructor 3 3) of
      Some (Inr m) \<Rightarrow>
        carved_edge_count m = 9 \<and> connected_maze m \<and>
        edges (cell_at (cells m) (0, 0)) = [(0, 0), (0, 0), (1, 0)] \<and>
        length (filter (\<lambda>c. ref_of c \<in> set (edges c)) (concat (cells m))) = 1
    | _ \<Rightarrow> False)"
  by code_simp

text \<open>
  C8. The depth-first carver on the maze of width 2 and height 1, started at \<open>(0, 0)\<close>: the
  start cell ends with 1 neighbor and 3 edge entries, two of them itself. Its uncarved edges
  are the neighbors that are not edges, none here, so their number 0 is not
  \<open>1 - 3\<close>.
\<close>

theorem uncarvedEdges_size_after_dfs:
  "(case solveMazeWithRandomDPS 3 0 (\<lambda>n arr. arr) (Maze_constructor 2 1) of
      Some (Inr m) \<Rightarrow>
        neighbors (cell_at (cells m) (0, 0)) = [(1, 0)] \<and>
        edges (cell_at (cells m) (0, 0)) = [(0, 0), (0, 0), (1, 0)] \<and>
        uncarvedEdges (cell_at (cells m) (0, 0)) = [] \<and>
        int (length (uncarvedEdges (cell_at (cells m) (0, 0)))) \<noteq>
          int (length (neighbors (cell_at (cells m) (0, 0)))) -
          int (length (edges (cell_at (cells m) (0, 0))))
    | _ \<Rightarrow> False)"
  by code_simp

section \<open>Animation frames\<close>

lemma randomMember_failure:
  "randomMember grp r = Inl e \<Longrightarrow> e = Error ''empty group'' \<or> e = Undefined"
  by (auto simp: randomMember_def Let_def split: if_splits)

lemma await_timeout_cases:
  "await_timeout time signal st =
     (if fires_during signal (clock st) time
      then Inl (Error ''aborted'',
                st\<lparr> events := events st @ [TimeoutWithCancel (clock st) time],
                    clock := the (abort_time signal) \<rparr>)
      else Inr (st\<lparr> events := events st @ [TimeoutWithCancel (clock st) time],
                    clock := clock st + time \<rparr>))"
  by (simp add: await_timeout_def timeoutWithCancel_def fires_during_def Let_def
      split: option.splits)

lemma walk_step_cases:
  "walk_step cancelSignal stepTime startCell r st path current =
     (case randomMember (ArrayGroup (uncarvedEdges (cell_at (cells (the_maze st)) current))) r of
        Inl e \<Rightarrow> Inl (e, st\<lparr> stepsTaken := stepsTaken st + 1 \<rparr>)
      | Inr nxt \<Rightarrow>
          if length (visited st) > 1 then
            (case await_timeout stepTime cancelSignal
                    (renderMaze (Some nxt) (erase_loop (path @ [current]) nxt)
                       (st\<lparr> stepsTaken := stepsTaken st + 1 \<rparr>)) of
               Inl (e, st') \<Rightarrow> Inl (e, st')
             | Inr st' \<Rightarrow> Inr (st', erase_loop (path @ [current]) nxt, nxt))
          else Inr (st\<lparr> stepsTaken := stepsTaken st + 1 \<rparr>, erase_loop (path @ [current]) nxt, nxt))"
  by (auto simp: walk_step_def Let_def renderMaze_def split: sum.splits)

text \<open>
  C5, as the claim states it, fails on the first walk. On the maze of width 2 and height 1
  with the seed \<open>(1, 0)\<close> the run takes one walk step, from \<open>(0, 0)\<close> to \<open>(1, 0)\<close>, and the only
  things it does to the canvas and the timers are the settled frame and the terminal pause:
  the step rendered no frame and awaited no delay.
\<close>

theorem wilson_first_walk_silent:
  "wilsonsAlgorithm (Maze_constructor 2 1) \<lparr> abort_time = None \<rparr> 10 0 [1 / 2, 0, 0] =
     (\<lparr> the_maze = (Maze_constructor 2 1)\<lparr> cells :=
           [ [\<lparr> cell_x = 0, cell_y = 0, edges = [(1, 0)], neighbors = [(1, 0)] \<rparr>,
             \<lparr> cell_x = 1, cell_y = 0, edges = [(0, 0)], neighbors = [(0, 0)] \<rparr>] ] \<rparr>,
         visited = [(1, 0), (0, 0)], unvisited = [], stepsTaken = 1, clock = 5000,
         events =
           [RenderMaze ((Maze_constructor 2 1)\<lparr> cells :=
              [ [\<lparr> cell_x = 0, cell_y = 0, edges = [(1, 0)], neighbors = [(1, 0)] \<rparr>,
                \<lparr> cell_x = 1, cell_y = 0, edges = [(0, 0)], neighbors = [(0, 0)] \<rparr>] ] \<rparr>) None [],
            TimeoutWithCancel 0 5000] \<rparr>,
      Returned 1)"
  by code_simp

text \<open>
  C5, amended. A pass through the inner loop that has chosen its next cell renders one frame
  with the maze, the chosen cell as the current cell and the path after loop erasure, and
  then awaits the per-step delay, when the visited set holds more than one cell, that is on
  every walk after the first. When the visited set holds the seed alone, on the first walk,
  the pass renders nothing and awaits nothing.
\<close>

theorem walk_step_frame:
  assumes "randomMember (ArrayGroup (uncarvedEdges (cell_at (cells (the_maze st)) current))) r = Inr nxt"
  shows "events (step_state (walk_step cancelSignal stepTime startCell r st path current)) =
           events st @
             (if length (visited st) > 1
              then [RenderMaze (the_maze st) (Some nxt) (erase_loop (path @ [current]) nxt),
                    TimeoutWithCancel (clock st) stepTime]
              else [])"
  using assms
  by (auto simp: walk_step_def Let_def renderMaze_def fillSelf_def await_timeout_def
      timeoutWithCancel_def split: option.splits)

theorem walk_step_frame_witness:
  "randomMember (ArrayGroup (uncarvedEdges (cell_at (cells (the_maze
       \<lparr> the_maze = carve (1, 0) (2, 0) (Maze_constructor 3 1), visited = [(2, 0), (1, 0)],
         unvisited = [(0, 0)], stepsTaken = 1, clock = 0, events = [] \<rparr>)) (0, 0)))) 0 = Inr (1, 0) \<and>
   events (step_state (walk_step \<lparr> abort_time = None \<rparr> 10 (2, 0) 0
       \<lparr> the_maze = carve (1, 0) (2, 0) (Maze_constructor 3 1), visited = [(2, 0), (1, 0)],
         unvisited = [(0, 0)], stepsTaken = 1, clock = 0, events = [] \<rparr> [] (0, 0))) =
     [RenderMaze (carve (1, 0) (2, 0) (Maze_constructor 3 1)) (Some (1, 0)) [(0, 0), (1, 0)],
      TimeoutWithCancel 0 10]"
proof -
  have chosen: "randomMember (ArrayGroup (uncarvedEdges (cell_at (cells (the_maze
       \<lparr> the_maze = carve (1, 0) (2, 0) (Maze_constructor 3 1), visited = [(2, 0), (1, 0)],
         unvisited = [(0, 0)], stepsTaken = 1, clock = 0, events = [] \<rparr>)) (0, 0)))) 0 = Inr (1, 0)"
    by code_simp
  have erased: "erase_loop ([] @ [(0, 0)]) (1, 0) = [(0, 0), (1 :: nat, 0 :: nat)]"
    by code_simp
  from walk_step_frame [OF chosen, of "\<lparr> abort_time = None \<rparr>" 10 "(2, 0)" "[]"] chosen erased
  show ?thesis by simp
qed

section \<open>Cancellation\<close>

declare wilson_loop.simps [simp del] random_walk.simps [simp del]

lemma carve_path_keeps [simp]:
  "events (carve_path path st) = events st" "clock (carve_path path st) = clock st"
  "stepsTaken (carve_path path st) = stepsTaken st"
proof -
  have "events (fold f is st) = events st \<and> clock (fold f is st) = clock st \<and>
        stepsTaken (fold f is st) = stepsTaken st"
    if "\<And>i s. events (f i s) = events s \<and> clock (f i s) = clock s \<and> stepsTaken (f i s) = stepsTaken s"
    for f :: "nat \<Rightarrow> wilson_state \<Rightarrow> wilson_state" and "is"
    using that by (induction "is" arbitrary: st) simp_all
  then show "events (carve_path path st) = events st" "clock (carve_path path st) = clock st"
    "stepsTaken (carve_path path st) = stepsTaken st"
    unfolding carve_path_def by (simp_all add: Let_def)
qed

lemma wilson_iteration_rule:
  assumes exhausted: "\<And>st. I st \<Longrightarrow> P (st, DrawsExhausted)"
    and member_fails: "\<And>st e. I st \<Longrightarrow> e = Error ''empty group'' \<or> e = Undefined \<Longrightarrow> P (st, Threw e)"
    and fin: "\<And>st. I st \<Longrightarrow> P (finish cancelSignal st)"
    and carved: "\<And>st path. I st \<Longrightarrow> I (carve_path path st)"
    and step_throws: "\<And>st r path cur e st'. I st \<Longrightarrow>
          walk_step cancelSignal stepTime startCell r st path cur = Inl (e, st') \<Longrightarrow> P (st', Threw e)"
    and step_goes_on: "\<And>st r path cur st' path' nxt. I st \<Longrightarrow>
          walk_step cancelSignal stepTime startCell r st path cur = Inr (st', path', nxt) \<Longrightarrow> I st'"
  shows "I st \<Longrightarrow> P (wilson_loop cancelSignal stepTime startCell st rs)"
    and "I st \<Longrightarrow> P (random_walk cancelSignal stepTime startCell st path current rs)"
  using assms
proof (induction cancelSignal stepTime startCell st rs and cancelSignal stepTime startCell st path current rs
    rule: wilson_loop_random_walk.induct)
  case (1 cancelSignal stepTime startCell st rs)
  show ?case
  proof (cases "length (unvisited st) > 0")
    case False
    then show ?thesis using "1.prems" by (simp add: wilson_loop.simps)
  next
    case True
    show ?thesis
    proof (cases rs)
      case Nil
      then show ?thesis using True "1.prems" by (simp add: wilson_loop.simps)
    next
      case (Cons r rs')
      show ?thesis
      proof (cases "randomMember (SetGroup (unvisited st)) r")
        case (Inl e)
        then show ?thesis
          using True Cons "1.prems" randomMember_failure [OF Inl]
          by (simp add: wilson_loop.simps)
      next
        case (Inr cur)
        have "P (random_walk cancelSignal stepTime startCell st [] cur rs')"
          by (rule "1.IH" [OF True Cons Inr "1.prems"])
        then show ?thesis
          using True Cons Inr by (simp add: wilson_loop.simps)
      qed
    qed
  qed
next
  case (2 cancelSignal stepTime startCell st path current rs)
  show ?case
  proof (cases "current \<notin> set (visited st)")
    case False
    have "I (carve_path path st)"
      by (rule "2.prems"(5) [OF "2.prems"(1)])
    then have "P (wilson_loop cancelSignal stepTime startCell (carve_path path st) rs)"
      by (rule "2.IH"(2) [OF False _ "2.prems"(2-7)])
    then show ?thesis using False by (simp add: random_walk.simps)
  next
    case True
    show ?thesis
    proof (cases rs)
      case Nil
      then show ?thesis using True "2.prems" by (simp add: random_walk.simps)
    next
      case (Cons r rs')
      show ?thesis
      proof (cases "walk_step cancelSignal stepTime startCell r st path current")
        case (Inl a)
        obtain e st' where a: "a = (e, st')" by (cases a)
        have step: "walk_step cancelSignal stepTime startCell r st path current = Inl (e, st')"
          using Inl a by simp
        have "P (st', Threw e)"
          by (rule "2.prems"(6) [OF "2.prems"(1) step])
        then show ?thesis
          using True Cons Inl a by (simp add: random_walk.simps)
      next
        case (Inr b)
        obtain st' path' nxt where b: "b = (st', path', nxt)" by (cases b)
        have step: "walk_step cancelSignal stepTime startCell r st path current = Inr (st', path', nxt)"
          using Inr b by simp
        have "I st'"
          by (rule "2.prems"(7) [OF "2.prems"(1) step])
        then have "P (random_walk cancelSignal stepTime startCell st' path' nxt rs')"
          by (rule "2.IH"(1) [OF True Cons step refl refl _ "2.prems"(2-7)])
        then show ?thesis
          using True Cons Inr b by (simp add: random_walk.simps)
      qed
    qed
  qed
qed

lemma run_post_abortI:
  assumes "fires_during signal c d" and "delays_resolved signal pre"
    and "events s' = pre @ [RenderMaze (the_maze s') cur p, TimeoutWithCancel c d]"
    and "abort_time signal = Some (clock s')"
  shows "run_post signal (s', Threw (Error ''aborted''))"
  using assms unfolding run_post_def by auto

lemma run_post_otherI:
  assumes "out \<noteq> Threw (Error ''aborted'')" and "delays_resolved signal (events s')"
  shows "run_post signal (s', out)"
  using assms unfolding run_post_def by simp

lemma delays_resolved_simps [simp]:
  "delays_resolved signal []"
  "delays_resolved signal (evs @ evs') \<longleftrightarrow> delays_resolved signal evs \<and> delays_resolved signal evs'"
  "delays_resolved signal (RenderMaze m cur p # evs) \<longleftrightarrow> delays_resolved signal evs"
  "delays_resolved signal (FillSelf c # evs) \<longleftrightarrow> delays_resolved signal evs"
  "delays_resolved signal (TimeoutWithCancel t d # evs) \<longleftrightarrow>
     \<not> fires_during signal t d \<and> delays_resolved signal evs"
  by (simp_all add: delays_resolved_def)

lemma fires_during_abort_time:
  "fires_during signal c d \<Longrightarrow> abort_time signal = Some (the (abort_time signal))"
  by (auto simp: fires_during_def split: option.splits)

lemma finish_run_post:
  assumes "delays_resolved signal (events st)"
  shows "run_post signal (finish signal st)"
proof (cases "fires_during signal (clock st) 5000")
  case True
  show ?thesis
    unfolding finish_def await_timeout_cases renderMaze_def using True
    by (auto intro!: run_post_abortI [where pre = "events st" and c = "clock st" and d = 5000
          and cur = None and p = "[]"] assms fires_during_abort_time)
next
  case False
  then show ?thesis
    unfolding finish_def await_timeout_cases renderMaze_def using assms
    by (auto intro!: run_post_otherI)
qed

lemma walk_step_throws_run_post:
  assumes "delays_resolved signal (events st)"
    and "walk_step signal stepTime startCell r st path cur = Inl (e, st')"
  shows "run_post signal (st', Threw e)"
proof (cases "randomMember (ArrayGroup (uncarvedEdges (cell_at (cells (the_maze st)) cur))) r")
  case (Inl e')
  then have "e' = Error ''empty group'' \<or> e' = Undefined" by (rule randomMember_failure)
  with Inl assms show ?thesis
    by (auto simp: walk_step_cases intro!: run_post_otherI)
next
  case (Inr nxt)
  with assms(2) have fires: "fires_during signal (clock st) stepTime"
    and e: "e = Error ''aborted''"
    and st': "st' = st\<lparr> stepsTaken := stepsTaken st + 1,
                events := events st @ [RenderMaze (the_maze st) (Some nxt) (erase_loop (path @ [cur]) nxt),
                                        TimeoutWithCancel (clock st) stepTime],
                clock := the (abort_time signal) \<rparr>"
    by (auto simp: walk_step_cases await_timeout_cases renderMaze_def split: if_splits)
  show ?thesis
    unfolding e
    by (rule run_post_abortI [OF fires assms(1), where cur = "Some nxt"
          and p = "erase_loop (path @ [cur]) nxt"])
       (simp_all add: st' fires_during_abort_time [OF fires, symmetric])
qed

lemma walk_step_goes_on_resolved:
  assumes "delays_resolved signal (events st)"
    and "walk_step signal stepTime startCell r st path cur = Inr (st', path', nxt)"
  shows "delays_resolved signal (events st')"
  using assms
  by (auto simp: walk_step_cases await_timeout_cases renderMaze_def split: sum.splits if_splits)

lemma wilson_loop_run_post:
  assumes "delays_resolved signal (events st)"
  shows "run_post signal (wilson_loop signal stepTime startCell st rs)"
proof (rule wilson_iteration_rule(1)
    [where I = "\<lambda>s. delays_resolved signal (events s)" and P = "run_post signal"])
  show "delays_resolved signal (events st)" by (rule assms)
next
  fix s :: wilson_state assume "delays_resolved signal (events s)"
  then show "run_post signal (s, DrawsExhausted)" by (intro run_post_otherI) simp_all
next
  fix s :: wilson_state and e
  assume "delays_resolved signal (events s)" and "e = Error ''empty group'' \<or> e = Undefined"
  then show "run_post signal (s, Threw e)" by (intro run_post_otherI) auto
next
  fix s :: wilson_state assume "delays_resolved signal (events s)"
  then show "run_post signal (finish signal s)" by (rule finish_run_post)
next
  fix s :: wilson_state and path assume "delays_resolved signal (events s)"
  then show "delays_resolved signal (events (carve_path path s))" by simp
next
  fix s s' :: wilson_state and r path cur e
  assume "delays_resolved signal (events s)"
    and "walk_step signal stepTime startCell r s path cur = Inl (e, s')"
  then show "run_post signal (s', Threw e)" by (rule walk_step_throws_run_post)
next
  fix s s' :: wilson_state and r path cur path' nxt
  assume "delays_resolved signal (events s)"
    and "walk_step signal stepTime startCell r s path cur = Inr (s', path', nxt)"
  then show "delays_resolved signal (events s')" by (rule walk_step_goes_on_resolved)
qed

lemma wilsonsAlgorithm_run_post:
  "run_post signal (wilsonsAlgorithm m signal stepTime t0 rs)"
proof (cases rs)
  case Nil
  then show ?thesis by (simp add: wilsonsAlgorithm_def run_post_otherI)
next
  case (Cons r rs')
  show ?thesis
  proof (cases "randomMember (ArrayGroup (flat_cells m)) r")
    case (Inl e)
    then show ?thesis
      using Cons randomMember_failure [OF Inl]
      by (auto simp: wilsonsAlgorithm_def intro!: run_post_otherI)
  next
    case (Inr startCell)
    then show ?thesis
      using Cons by (simp add: wilsonsAlgorithm_def wilson_loop_run_post)
  qed
qed

lemma delays_resolved_member:
  "delays_resolved signal evs \<Longrightarrow> TimeoutWithCancel c d \<in> set evs \<Longrightarrow> \<not> fires_during signal c d"
  by (auto simp: delays_resolved_def list_all_iff)

text \<open>
  C6. When the signal fires while a delay of the run is pending, be it a per-step delay or
  the terminal pause, that delay rejects with the error "aborted" and the run throws it, so
  it returns no step count. The delay is the last thing the run did: nothing is retried. The
  maze the run leaves is the maze it rendered just before that delay, and the clock stands
  at the moment the signal fired.
\<close>

theorem abort_during_delay_propagates:
  assumes pending: "TimeoutWithCancel c d \<in> set (events (fst (wilsonsAlgorithm m signal stepTime t0 rs)))"
    and fires: "fires_during signal c d"
  shows "snd (wilsonsAlgorithm m signal stepTime t0 rs) = Threw (Error ''aborted'') \<and>
         (\<exists>pre cur p. events (fst (wilsonsAlgorithm m signal stepTime t0 rs)) =
            pre @ [RenderMaze (the_maze (fst (wilsonsAlgorithm m signal stepTime t0 rs))) cur p,
                   TimeoutWithCancel c d]) \<and>
         abort_time signal = Some (clock (fst (wilsonsAlgorithm m signal stepTime t0 rs))) \<and>
         snd (timeoutWithCancel d signal c) = Some (Error ''aborted'')"
proof -
  let ?res = "wilsonsAlgorithm m signal stepTime t0 rs"
  have post: "run_post signal ?res" by (rule wilsonsAlgorithm_run_post)
  have thrown: "snd ?res = Threw (Error ''aborted'')"
  proof (rule ccontr)
    assume "snd ?res \<noteq> Threw (Error ''aborted'')"
    with post have "delays_resolved signal (events (fst ?res))" by (simp add: run_post_def)
    from delays_resolved_member [OF this pending] fires show False by simp
  qed
  with post obtain pre cur p c' d' where
    ev: "events (fst ?res) = pre @ [RenderMaze (the_maze (fst ?res)) cur p, TimeoutWithCancel c' d']"
    and pre: "delays_resolved signal pre"
    and at: "abort_time signal = Some (clock (fst ?res))"
    unfolding run_post_def by auto
  from pending ev have "TimeoutWithCancel c d \<in> set pre \<or> (c = c' \<and> d = d')" by auto
  with delays_resolved_member [OF pre] fires have "c = c' \<and> d = d'" by blast
  moreover have "snd (timeoutWithCancel d signal c) = Some (Error ''aborted'')"
    using fires by (auto simp: timeoutWithCancel_def fires_during_def split: option.splits)
  ultimately show ?thesis using thrown ev at by blast
qed

theorem abort_during_delay_propagates_witness:
  "TimeoutWithCancel 0 10 \<in> set (events (fst (wilsonsAlgorithm (Maze_constructor 3 1)
       \<lparr> abort_time = Some 3 \<rparr> 10 0 [9 / 10, 1 / 2, 1 / 2, 0, 0]))) \<and>
   fires_during \<lparr> abort_time = Some 3 \<rparr> 0 10 \<and>
   snd (wilsonsAlgorithm (Maze_constructor 3 1) \<lparr> abort_time = Some 3 \<rparr> 10 0
          [9 / 10, 1 / 2, 1 / 2, 0, 0]) = Threw (Error ''aborted'') \<and>
   (\<exists>pre cur p. events (fst (wilsonsAlgorithm (Maze_constructor 3 1) \<lparr> abort_time = Some 3 \<rparr> 10 0
          [9 / 10, 1 / 2, 1 / 2, 0, 0])) =
      pre @ [RenderMaze (the_maze (fst (wilsonsAlgorithm (Maze_constructor 3 1)
               \<lparr> abort_time = Some 3 \<rparr> 10 0 [9 / 10, 1 / 2, 1 / 2, 0, 0]))) cur p,
             TimeoutWithCancel 0 10]) \<and>
   abort_time \<lparr> abort_time = Some 3 \<rparr> =
     Some (clock (fst (wilsonsAlgorithm (Maze_constructor 3 1) \<lparr> abort_time = Some 3 \<rparr> 10 0
          [9 / 10, 1 / 2, 1 / 2, 0, 0]))) \<and>
   snd (timeoutWithCancel 10 \<lparr> abort_time = Some 3 \<rparr> 0) = Some (Error ''aborted'')"
proof -
  have h1: "TimeoutWithCancel 0 10 \<in> set (events (fst (wilsonsAlgorithm (Maze_constructor 3 1)
       \<lparr> abort_time = Some 3 \<rparr> 10 0 [9 / 10, 1 / 2, 1 / 2, 0, 0])))"
    by code_simp
  have h2: "fires_during \<lparr> abort_time = Some 3 \<rparr> 0 10"
    by (simp add: fires_during_def)
  from abort_during_delay_propagates [OF h1 h2] h1 h2 show ?thesis by blast
qed

section \<open>A signal that has fired before the call\<close>

lemma signal_aborted_not_fires:
  "signal_aborted signal t \<Longrightarrow> t \<le> c \<Longrightarrow> \<not> fires_during signal c d"
  by (auto simp: signal_aborted_def fires_during_def split: option.splits)

lemma signal_aborted_mono:
  "signal_aborted signal t \<Longrightarrow> t \<le> t' \<Longrightarrow> signal_aborted signal t'"
  by (auto simp: signal_aborted_def split: option.splits)

lemma already_aborted_loop:
  assumes "signal_aborted cancelSignal (clock st)"
  shows "snd (wilson_loop cancelSignal stepTime startCell st rs) \<noteq> Threw (Error ''aborted'')"
proof (rule wilson_iteration_rule(1)
    [where I = "\<lambda>s. signal_aborted cancelSignal (clock s)"
       and P = "\<lambda>res. snd res \<noteq> Threw (Error ''aborted'')"])
  show "signal_aborted cancelSignal (clock st)" by (rule assms)
next
  fix s :: wilson_state show "snd (s, DrawsExhausted) \<noteq> Threw (Error ''aborted'')" by simp
next
  fix s :: wilson_state and e
  assume "e = Error ''empty group'' \<or> e = Undefined"
  then show "snd (s, Threw e) \<noteq> Threw (Error ''aborted'')" by auto
next
  fix s :: wilson_state assume "signal_aborted cancelSignal (clock s)"
  then have "\<not> fires_during cancelSignal (clock s) 5000"
    by (rule signal_aborted_not_fires) simp
  then show "snd (finish cancelSignal s) \<noteq> Threw (Error ''aborted'')"
    by (simp add: finish_def await_timeout_cases renderMaze_def)
next
  fix s :: wilson_state and path assume "signal_aborted cancelSignal (clock s)"
  then show "signal_aborted cancelSignal (clock (carve_path path s))" by simp
next
  fix s s' :: wilson_state and r path cur e
  assume a: "signal_aborted cancelSignal (clock s)"
    and step: "walk_step cancelSignal stepTime startCell r s path cur = Inl (e, s')"
  from a have "\<not> fires_during cancelSignal (clock s) stepTime"
    by (rule signal_aborted_not_fires) simp
  with step show "snd (s', Threw e) \<noteq> Threw (Error ''aborted'')"
    by (auto simp: walk_step_cases await_timeout_cases renderMaze_def
        split: sum.splits if_splits dest: randomMember_failure)
next
  fix s s' :: wilson_state and r path cur path' nxt
  assume a: "signal_aborted cancelSignal (clock s)"
    and step: "walk_step cancelSignal stepTime startCell r s path cur = Inr (s', path', nxt)"
  from step have "clock s \<le> clock s'"
    by (auto simp: walk_step_cases await_timeout_cases renderMaze_def
        split: sum.splits if_splits)
  with a show "signal_aborted cancelSignal (clock s')" by (rule signal_aborted_mono)
qed

text \<open>
  C10. When the signal has fired before \<^verbatim>\<open>timeoutWithCancel\<close> is called, the promise is not
  rejected: it resolves after the full duration. A run of Wilson's algorithm started with
  such a signal never throws the error "aborted".
\<close>

theorem already_aborted_never_rejects:
  assumes "signal_aborted cancelSignal t0"
  shows "timeoutWithCancel time cancelSignal t0 = (t0 + time, None) \<and>
         snd (wilsonsAlgorithm m cancelSignal stepTime t0 rs) \<noteq> Threw (Error ''aborted'')"
proof
  show "timeoutWithCancel time cancelSignal t0 = (t0 + time, None)"
    using assms by (auto simp: timeoutWithCancel_def signal_aborted_def split: option.splits)
next
  show "snd (wilsonsAlgorithm m cancelSignal stepTime t0 rs) \<noteq> Threw (Error ''aborted'')"
  proof (cases rs)
    case Nil
    then show ?thesis by (simp add: wilsonsAlgorithm_def)
  next
    case (Cons r rs')
    show ?thesis
    proof (cases "randomMember (ArrayGroup (flat_cells m)) r")
      case (Inl e)
      then show ?thesis
        using Cons randomMember_failure [OF Inl] by (auto simp: wilsonsAlgorithm_def)
    next
      case (Inr startCell)
      then show ?thesis
        using Cons assms by (simp add: wilsonsAlgorithm_def already_aborted_loop)
    qed
  qed
qed

theorem already_aborted_never_rejects_witness:
  "signal_aborted \<lparr> abort_time = Some 0 \<rparr> 1 \<and>
   timeoutWithCancel 10 \<lparr> abort_time = Some 0 \<rparr> 1 = (11, None) \<and>
   snd (wilsonsAlgorithm (Maze_constructor 2 1) \<lparr> abort_time = Some 0 \<rparr> 10 1 [1 / 2, 0, 0])
     \<noteq> Threw (Error ''aborted'')"
proof -
  have h: "signal_aborted \<lparr> abort_time = Some 0 \<rparr> 1" by (simp add: signal_aborted_def)
  from already_aborted_never_rejects [OF h, of 10 "Maze_constructor 2 1" 10 "[1 / 2, 0, 0]"] h
  show ?thesis by simp
qed

end
